theory Spec2Isabelle
  imports Main "HOL-Library.Sublist" "HOL-Library.Multiset"
begin

section \<open>Strings\<close>

text \<open>
  A JavaScript string is modelled as a \<^typ>\<open>string\<close> (a list of \<^typ>\<open>char\<close>).
  \<open>String.prototype.toLowerCase\<close> is a built-in of the platform, which folds every
  cased letter of Unicode; it is a parameter of the model (the field \<open>toLowerCase\<close>
  of the environment below), as the working directory and the file reads are. The
  theorems over an arbitrary environment hold for every such function, and ask
  nothing about how text outside ASCII is laid out in the characters of a string.

  On text that is ASCII throughout the built-in is known exactly: the letters
  \<open>A\<close>..\<open>Z\<close> (codes 65..90) become \<open>a\<close>..\<open>z\<close> and every other character stays.
  \<open>asciiLower\<close> is that fold; it serves to say what an environment does on ASCII
  text, and as the fold of the example environment.
\<close>

definition isAscii :: "char \<Rightarrow> bool" where
  "isAscii c = ((of_char c :: nat) < 128)"

definition asciiLowerChar :: "char \<Rightarrow> char" where
  "asciiLowerChar c =
     (let n = (of_char c :: nat) in if 65 \<le> n \<and> n \<le> 90 then char_of (n + 32) else c)"

definition asciiLower :: "string \<Rightarrow> string" where
  "asciiLower s = map asciiLowerChar s"

text \<open>
  \<open>s.includes(p)\<close>: some position of \<open>s\<close> starts an occurrence of \<open>p\<close>; the empty
  string is included in every string, the empty one too.
\<close>

fun str_includes :: "string \<Rightarrow> string \<Rightarrow> bool" where
  "str_includes [] p = (p = [])"
| "str_includes (c # cs) p = (if prefix p (c # cs) then True else str_includes cs p)"

text \<open>\<open>s.startsWith(p)\<close>.\<close>

definition startsWith :: "string \<Rightarrow> string \<Rightarrow> bool" where
  "startsWith s p = prefix p s"

text \<open>
  \<open>s.replace(pat, rep)\<close> with a string pattern: the first occurrence of \<open>pat\<close> is
  replaced, a string without an occurrence is returned as it is.
\<close>

fun str_replace :: "string \<Rightarrow> string \<Rightarrow> string \<Rightarrow> string" where
  "str_replace [] pat rep = (if pat = [] then rep else [])"
| "str_replace (c # cs) pat rep =
     (if prefix pat (c # cs) then rep @ drop (length pat) (c # cs)
      else c # str_replace cs pat rep)"

text \<open>\<open>Array.prototype.join\<close> on strings.\<close>

fun str_join :: "string \<Rightarrow> string list \<Rightarrow> string" where
  "str_join sep [] = []"
| "str_join sep [x] = x"
| "str_join sep (x # y # ys) = x @ sep @ str_join sep (y # ys)"

text \<open>\<open>s.split(sep)\<close> for a one-character separator: never the empty list.\<close>

fun str_split :: "char \<Rightarrow> string \<Rightarrow> string list" where
  "str_split sep [] = [[]]"
| "str_split sep (c # cs) =
     (if c = sep then [] # str_split sep cs
      else (case str_split sep cs of
              seg # segs \<Rightarrow> (c # seg) # segs
            | [] \<Rightarrow> [[c]]))"

section \<open>Errors\<close>

text \<open>
  Every error the engine raises is a plain \<open>Error\<close> object built by \<open>new Error(message)\<close>;
  its only payload is the message. The template literal \<open>${error}\<close> renders an error by
  \<open>Error.prototype.toString\<close>: the name \<open>Error\<close>, then \<open>: \<close> and the message when
  the message is not empty.
\<close>

datatype js_error = Error (message: string)

fun errorToString :: "js_error \<Rightarrow> string" where
  "errorToString (Error m) = (if m = [] then ''Error'' else ''Error: '' @ m)"

section \<open>The platform: working directory, file reads, lower-casing, path.join\<close>

text \<open>
  The process environment the engine reads: \<open>process.cwd()\<close>, the outcome of
  \<open>fs.readFile(path, 'utf-8')\<close> for every path (the text of the file, or the I/O error
  the read is rejected with), and what \<open>String.prototype.toLowerCase\<close> returns for
  every string.
\<close>

record env =
  cwd :: string
  readFile :: "string \<Rightarrow> js_error + string"
  toLowerCase :: "string \<Rightarrow> string"

text \<open>
  Node's \<open>path.join\<close> on a POSIX system, a library function: the non-empty arguments are joined by
  \<open>/\<close> and the result is normalised. Normalisation works on the segments between
  slashes: empty segments and \<open>.\<close> are dropped, \<open>..\<close> removes the segment before it
  (above the start of a relative path it is kept, above the root it is dropped).
  \<open>normalizeSegments\<close> keeps the segments already accepted in reverse order.
\<close>

fun normalizeSegments :: "bool \<Rightarrow> string list \<Rightarrow> string list \<Rightarrow> string list" where
  "normalizeSegments allowAboveRoot acc [] = rev acc"
| "normalizeSegments allowAboveRoot acc (seg # segs) =
     (if seg = [] \<or> seg = ''.'' then normalizeSegments allowAboveRoot acc segs
      else if seg = ''..'' then
        (case acc of
           lastSeg # rest \<Rightarrow>
             if lastSeg = ''..''
             then normalizeSegments allowAboveRoot
                    (if allowAboveRoot then ''..'' # acc else acc) segs
             else normalizeSegments allowAboveRoot rest segs
         | [] \<Rightarrow>
             normalizeSegments allowAboveRoot
               (if allowAboveRoot then [''..''] else []) segs)
      else normalizeSegments allowAboveRoot (seg # acc) segs)"

definition path_normalize :: "string \<Rightarrow> string" where
  "path_normalize path =
     (if path = [] then ''.''
      else
        let isAbsolute = (hd path = CHR ''/'');
            trailingSeparator = (last path = CHR ''/'');
            p = str_join ''/'' (normalizeSegments (\<not> isAbsolute) [] (str_split CHR ''/'' path))
        in if p = [] then (if isAbsolute then ''/'' else if trailingSeparator then ''./'' else ''.'')
           else
             let p' = (if trailingSeparator then p @ ''/'' else p)
             in if isAbsolute then ''/'' @ p' else p')"

definition path_join :: "string list \<Rightarrow> string" where
  "path_join args =
     (let joined = filter (\<lambda>arg. arg \<noteq> []) args
      in if joined = [] then ''.'' else path_normalize (str_join ''/'' joined))"

section \<open>Rules\<close>

record PromptRule =
  patterns :: "string list"
  promptFile :: string
  description :: string

text \<open>The rule table the class initialises its private field \<open>rules\<close> with.\<close>

definition rules :: "PromptRule list" where
  "rules =
     [\<lparr> patterns =
          [''authorization model'',
           ''auth model'',
           ''access control'',
           ''rbac'',
           ''abac'',
           ''permission'',
           ''role based'',
           ''attribute based'',
           ''authentication'',
           ''auth'',
           ''security model'',
           ''openfga'',
           ''openfga model'',
           ''openfga authorization'',
           ''openfga auth'',
           ''openfga dsl'',
           ''openfga schema'',
           ''openfga relations'',
           ''openfga types'',
           ''zanzibar'',
           ''relationship based access control'',
           ''rebac'',
           ''fine grained access control'',
           ''fga'',
           ''tuple'',
           ''relationship tuple'',
           ''authorization tuple'',
           ''user relation object'',
           ''permission check'',
           ''can user'',
           ''access check''],
        promptFile = ''authorization-model.md'',
        description = ''Author authorization models with OpenFGA'' \<rparr>]"

section \<open>The matcher: returned values\<close>

text \<open>
  The methods of \<open>PromptMatcher\<close> as functions of the rule list held by \<open>this.rules\<close>
  and of the environment \<open>e\<close>. A thrown error or a rejected promise is the \<open>Inl\<close> branch of
  the result. The \<open>console.error\<close> diagnostics are left to the section on calls below.

  \<open>matchPattern\<close> is the inner loop of \<open>findBestMatch\<close> over \<open>rule.patterns\<close>: the first
  pattern, in order, whose lower-cased text the lower-cased query includes.
  \<open>matchRule\<close> is the outer loop over \<open>this.rules\<close>: the first rule, in order, with such
  a pattern, together with that pattern (the two values in scope at \<open>return rule\<close>).
\<close>

fun matchPattern :: "env \<Rightarrow> string \<Rightarrow> string list \<Rightarrow> string option" where
  "matchPattern e lowercaseQuery [] = None"
| "matchPattern e lowercaseQuery (pattern # ps) =
     (if str_includes lowercaseQuery (toLowerCase e pattern) then Some pattern
      else matchPattern e lowercaseQuery ps)"

fun matchRule :: "env \<Rightarrow> string \<Rightarrow> PromptRule list \<Rightarrow> (string \<times> PromptRule) option" where
  "matchRule e lowercaseQuery [] = None"
| "matchRule e lowercaseQuery (r # rs) =
     (case matchPattern e lowercaseQuery (patterns r) of
        Some pattern \<Rightarrow> Some (pattern, r)
      | None \<Rightarrow> matchRule e lowercaseQuery rs)"

definition findBestMatch :: "PromptRule list \<Rightarrow> env \<Rightarrow> string \<Rightarrow> PromptRule option" where
  "findBestMatch rs e query =
     (let lowercaseQuery = toLowerCase e query
      in map_option snd (matchRule e lowercaseQuery rs))"

text \<open>\<open>getAllRules\<close> returns \<open>[...this.rules]\<close>: as a value, the same sequence.\<close>

definition getAllRules :: "PromptRule list \<Rightarrow> PromptRule list" where
  "getAllRules rs = rs"

definition loadPromptContent :: "env \<Rightarrow> string \<Rightarrow> js_error + string" where
  "loadPromptContent e file =
     (let promptsDir = path_join [cwd e, ''prompts''];
          filePath = path_join [promptsDir, file]
      in case readFile e filePath of
           Inr text \<Rightarrow> Inr text
         | Inl err \<Rightarrow>
             Inl (Error (''Failed to load prompt file '' @ file @ '': '' @ errorToString err)))"

record ResolvedContext =
  rule :: "PromptRule option"
  content :: "string option"
  matchFound :: bool

definition getContextForQuery ::
  "PromptRule list \<Rightarrow> env \<Rightarrow> string \<Rightarrow> js_error + ResolvedContext" where
  "getContextForQuery rs e query =
     (case findBestMatch rs e query of
        None \<Rightarrow> Inr \<lparr> rule = None, content = None, matchFound = False \<rparr>
      | Some r \<Rightarrow>
          (case loadPromptContent e (promptFile r) of
             Inr text \<Rightarrow> Inr \<lparr> rule = Some r, content = Some text, matchFound = True \<rparr>
           | Inl err \<Rightarrow> Inl (Error (''Error loading context: '' @ errorToString err))))"

section \<open>The resources/read handler\<close>

text \<open>
  The handler registered for \<open>ReadResourceRequestSchema\<close>: a URI outside the
  \<open>prompt://\<close> scheme is refused, otherwise the URI with its first \<open>prompt://\<close>
  removed is handed to \<open>loadPromptContent\<close> as the file name. The calls to the
  server's logger are left out.
\<close>

record ResourceContents =
  uri :: string
  mimeType :: string
  resourceText :: string

definition readResource :: "env \<Rightarrow> string \<Rightarrow> js_error + ResourceContents list" where
  "readResource e u =
     (if \<not> startsWith u ''prompt://'' then Inl (Error (''Unsupported URI scheme: '' @ u))
      else
        let file = str_replace u ''prompt://'' ''''
        in case loadPromptContent e file of
             Inr c \<Rightarrow> Inr [\<lparr> uri = u, mimeType = ''text/markdown'', resourceText = c \<rparr>]
           | Inl err \<Rightarrow>
               Inl (Error (''Failed to read resource '' @ u @ '': '' @ errorToString err)))"

section \<open>The matcher as an object: store, calls and diagnostics\<close>

text \<open>
  A \<open>PromptMatcher\<close> instance lives in the JavaScript heap: its field \<open>rules\<close> refers
  to an array of references to rule objects, and the field \<open>patterns\<close> of a rule object
  refers to an array of strings (strings themselves are immutable values). The store
  keeps the three kinds of object apart, each addressed by a number; \<open>nextRef\<close> is the
  next address the allocator hands out, \<open>thisRules\<close> the reference held by the field
  \<open>rules\<close>, and \<open>stderr\<close> what \<open>console.error\<close> has written so far.
\<close>

datatype log_event =
    MatchingQuery string
  | PatternMatchFound string string
  | NoPatternMatchFound string
  | LoadingPromptFile string
  | LoadedPromptFile string nat
  | FailedToLoadPromptFile string js_error

record RuleObject =
  patternsRef :: nat
  promptFileField :: string
  descriptionField :: string

record store =
  ruleArrays :: "nat \<Rightarrow> nat list"
  ruleObjects :: "nat \<Rightarrow> RuleObject"
  stringArrays :: "nat \<Rightarrow> string list"
  nextRef :: nat
  thisRules :: nat
  stderr :: "log_event list"

text \<open>What reading the fields of the rule object at a reference gives.\<close>

definition readRule :: "store \<Rightarrow> nat \<Rightarrow> PromptRule" where
  "readRule st a =
     \<lparr> patterns = stringArrays st (patternsRef (ruleObjects st a)),
       promptFile = promptFileField (ruleObjects st a),
       description = descriptionField (ruleObjects st a) \<rparr>"

text \<open>The rules an array of rule references holds, and the rules of the engine.\<close>

definition readRules :: "store \<Rightarrow> nat \<Rightarrow> PromptRule list" where
  "readRules st a = map (readRule st) (ruleArrays st a)"

definition currentRules :: "store \<Rightarrow> PromptRule list" where
  "currentRules st = readRules st (thisRules st)"

text \<open>
  The store after \<open>new PromptMatcher()\<close>: the field initialiser allocates the pattern
  array, the rule object and the rule array of the table \<open>rules\<close>.
\<close>

definition newPromptMatcher :: store where
  "newPromptMatcher =
     \<lparr> ruleArrays = (\<lambda>_. [])(2 := [1]),
       ruleObjects =
         (\<lambda>_. \<lparr> patternsRef = 0, promptFileField = [], descriptionField = [] \<rparr>)
           (1 := \<lparr> patternsRef = 0,
                   promptFileField = promptFile (hd rules),
                   descriptionField = description (hd rules) \<rparr>),
       stringArrays = (\<lambda>_. [])(0 := patterns (hd rules)),
       nextRef = 3,
       thisRules = 2,
       stderr = [] \<rparr>"

text \<open>
  The calls. Each returns the value of the method and the store after it; a rule
  that is returned is given by its fields as they read in the store at that moment.
  \<open>findBestMatch\<close> and \<open>loadPromptContent\<close> write their diagnostics;
  \<open>getAllRules\<close> allocates a new array holding the references of \<open>this.rules\<close> (the
  spread \<open>[...this.rules]\<close> copies the references, not the rule objects) and returns
  the reference to it.
\<close>

definition findBestMatch_call ::
  "env \<Rightarrow> string \<Rightarrow> store \<Rightarrow> PromptRule option \<times> store" where
  "findBestMatch_call e query st =
     (let lowercaseQuery = toLowerCase e query;
          st1 = st\<lparr> stderr := stderr st @ [MatchingQuery query] \<rparr>
      in case matchRule e lowercaseQuery (currentRules st1) of
           Some (pattern, r) \<Rightarrow>
             (Some r, st1\<lparr> stderr := stderr st1 @ [PatternMatchFound pattern (promptFile r)] \<rparr>)
         | None \<Rightarrow>
             (None, st1\<lparr> stderr := stderr st1 @ [NoPatternMatchFound query] \<rparr>))"

definition getAllRules_call :: "store \<Rightarrow> nat \<times> store" where
  "getAllRules_call st =
     (nextRef st,
      st\<lparr> ruleArrays := (ruleArrays st)(nextRef st := ruleArrays st (thisRules st)),
          nextRef := Suc (nextRef st) \<rparr>)"

definition loadPromptContent_call ::
  "env \<Rightarrow> string \<Rightarrow> store \<Rightarrow> (js_error + string) \<times> store" where
  "loadPromptContent_call e file st =
     (let promptsDir = path_join [cwd e, ''prompts''];
          filePath = path_join [promptsDir, file];
          st1 = st\<lparr> stderr := stderr st @ [LoadingPromptFile filePath] \<rparr>
      in case readFile e filePath of
           Inr c \<Rightarrow>
             (Inr c, st1\<lparr> stderr := stderr st1 @ [LoadedPromptFile file (length c)] \<rparr>)
         | Inl err \<Rightarrow>
             (Inl (Error (''Failed to load prompt file '' @ file @ '': '' @ errorToString err)),
              st1\<lparr> stderr := stderr st1 @ [FailedToLoadPromptFile file err] \<rparr>))"

definition getContextForQuery_call ::
  "env \<Rightarrow> string \<Rightarrow> store \<Rightarrow> (js_error + ResolvedContext) \<times> store" where
  "getContextForQuery_call e query st =
     (case findBestMatch_call e query st of
        (None, st1) \<Rightarrow> (Inr \<lparr> rule = None, content = None, matchFound = False \<rparr>, st1)
      | (Some r, st1) \<Rightarrow>
          (case loadPromptContent_call e (promptFile r) st1 of
             (Inr c, st2) \<Rightarrow> (Inr \<lparr> rule = Some r, content = Some c, matchFound = True \<rparr>, st2)
           | (Inl err, st2) \<Rightarrow>
               (Inl (Error (''Error loading context: '' @ errorToString err)), st2)))"

text \<open>
  What a caller holding the reference \<open>a\<close> returned by \<open>getAllRules\<close> can do with it.
  \<open>setArray a xs\<close> stands for any mutation of the returned array itself (assigning
  an element, \<open>push\<close>, \<open>pop\<close>, \<open>splice\<close>, \<open>sort\<close>, setting \<open>length\<close>): afterwards
  the array holds some other list \<open>xs\<close> of references. \<open>pushPattern a i s\<close> is the
  statement \<open>a[i].patterns.push(s)\<close>, which throws without changing anything when
  \<open>a[i]\<close> is undefined.
\<close>

definition setArray :: "nat \<Rightarrow> nat list \<Rightarrow> store \<Rightarrow> store" where
  "setArray a xs st = st\<lparr> ruleArrays := (ruleArrays st)(a := xs) \<rparr>"

definition pushPattern :: "nat \<Rightarrow> nat \<Rightarrow> string \<Rightarrow> store \<Rightarrow> store" where
  "pushPattern a i s st =
     (if i < length (ruleArrays st a)
      then
        let p = patternsRef (ruleObjects st (ruleArrays st a ! i))
        in st\<lparr> stringArrays := (stringArrays st)(p := stringArrays st p @ [s]) \<rparr>
      else st)"

section \<open>Notions of the specification\<close>

text \<open>
  A pattern is a case-insensitive substring of a query when the lower-cased pattern
  occurs in the lower-cased query as a contiguous run of characters, lower-cased by
  the platform's own \<open>toLowerCase\<close>.
\<close>

definition caseInsensitiveSubstring :: "env \<Rightarrow> string \<Rightarrow> string \<Rightarrow> bool" where
  "caseInsensitiveSubstring e p q = sublist (toLowerCase e p) (toLowerCase e q)"

text \<open>
  What is known of every platform: on a string that is ASCII throughout,
  \<open>toLowerCase\<close> is the ASCII fold.
\<close>

definition asciiExact :: "env \<Rightarrow> bool" where
  "asciiExact e = (\<forall>s. (\<forall>c\<in>set s. isAscii c) \<longrightarrow> toLowerCase e s = asciiLower s)"

text \<open>White space: space, tab, line feed, vertical tab, form feed, carriage return.\<close>

definition isWhitespace :: "char \<Rightarrow> bool" where
  "isWhitespace c = (c \<in> {CHR '' '', CHR 0x09, CHR 0x0A, CHR 0x0B, CHR 0x0C, CHR 0x0D})"

text \<open>
  An environment for the examples: the process runs in \<open>/app\<close>, the documents
  directory holds \<open>authorization-model.md\<close>, a file \<open>package.json\<close> lies beside it;
  reading a directory is refused with \<open>EISDIR\<close>, reading anything else with \<open>ENOENT\<close>.
  Its strings are ASCII, lower-cased by the ASCII fold.
\<close>

definition exampleEnv :: env where
  "exampleEnv =
     \<lparr> cwd = ''/app'',
       readFile = (\<lambda>p.
         if p = ''/app/prompts/authorization-model.md'' then Inr ''# OpenFGA modeling guide''
         else if p = ''/app/package.json'' then Inr ''{ name: openfga-modeling-mcp }''
         else if p = ''/app/prompts'' \<or> p = ''/app'' \<or> p = ''/''
           then Inl (Error ''EISDIR: illegal operation on a directory, read'')
         else Inl (Error (''ENOENT: no such file or directory, open '' @
                            [CHR 0x27] @ p @ [CHR 0x27]))),
       toLowerCase = asciiLower \<rparr>"

text \<open>Rule sets with more than one rule, for the examples.\<close>

definition exampleRules :: "PromptRule list" where
  "exampleRules =
     [\<lparr> patterns = [''Weather'', ''forecast''], promptFile = ''weather.md'',
        description = ''Weather'' \<rparr>,
      \<lparr> patterns = [''zanzibar'', ''RBAC''], promptFile = ''authorization-model.md'',
        description = ''Author authorization models with OpenFGA'' \<rparr>,
      \<lparr> patterns = [''abac'', ''rbac''], promptFile = ''abac.md'',
        description = ''Attributes'' \<rparr>]"

text \<open>
  An environment whose strings are Latin-1, one character each: besides \<open>A\<close>..\<open>Z\<close>
  its \<open>toLowerCase\<close> folds the accented capitals (codes 192..222 but the
  multiplication sign 215) to the letters 32 above them, as the built-in does with
  these code points. A rule set with an accented pattern goes with it.
\<close>

definition latin1LowerChar :: "char \<Rightarrow> char" where
  "latin1LowerChar c =
     (let n = (of_char c :: nat)
      in if (65 \<le> n \<and> n \<le> 90) \<or> (192 \<le> n \<and> n \<le> 222 \<and> n \<noteq> 215)
         then char_of (n + 32) else c)"

definition latin1Env :: env where
  "latin1Env = exampleEnv\<lparr> toLowerCase := map latin1LowerChar \<rparr>"

definition accentRules :: "PromptRule list" where
  "accentRules =
     [\<lparr> patterns = [[CHR 0xE9]], promptFile = ''accent.md'', description = ''Accented'' \<rparr>,
      \<lparr> patterns = [''e''], promptFile = ''plain.md'', description = ''Plain'' \<rparr>]"

section \<open>Matching: auxiliary facts\<close>

lemma str_includes_sublist: "str_includes s p \<longleftrightarrow> sublist p s"
  by (induction s) (auto simp: sublist_Cons_right)

lemma matchPattern_None:
  "matchPattern e lq ps = None \<longleftrightarrow> (\<forall>p\<in>set ps. \<not> str_includes lq (toLowerCase e p))"
  by (induction ps) auto

lemma matchPattern_Some:
  "matchPattern e lq ps = Some p \<Longrightarrow> p \<in> set ps \<and> str_includes lq (toLowerCase e p)"
  by (induction ps) (auto split: if_splits)

lemma matchPattern_lower_None:
  "matchPattern e (toLowerCase e q) ps = None \<longleftrightarrow> (\<forall>p\<in>set ps. \<not> caseInsensitiveSubstring e p q)"
  by (simp add: matchPattern_None str_includes_sublist caseInsensitiveSubstring_def)

lemma matchRule_None:
  "matchRule e lq rs = None \<longleftrightarrow> (\<forall>r\<in>set rs. matchPattern e lq (patterns r) = None)"
  by (induction rs) (auto split: option.splits)

lemma matchRule_Some:
  "matchRule e lq rs = Some (p, r) \<Longrightarrow> r \<in> set rs \<and> matchPattern e lq (patterns r) = Some p"
  by (induction rs) (auto split: option.splits)

lemma findBestMatch_Nil: "findBestMatch [] e q = None"
  by (simp add: findBestMatch_def)

lemma findBestMatch_Cons:
  "findBestMatch (r # rs) e q =
     (if matchPattern e (toLowerCase e q) (patterns r) = None then findBestMatch rs e q else Some r)"
  by (auto simp: findBestMatch_def split: option.splits)

lemma findBestMatch_None:
  "findBestMatch rs e q = None \<longleftrightarrow>
     (\<forall>r\<in>set rs. \<forall>p\<in>set (patterns r). \<not> caseInsensitiveSubstring e p q)"
  by (induction rs) (auto simp: findBestMatch_Nil findBestMatch_Cons matchPattern_lower_None)

lemma findBestMatch_Some_index:
  "findBestMatch rs e q = Some r \<Longrightarrow> \<exists>j<length rs. r = rs ! j"
proof (induction rs)
  case Nil
  then show ?case by (simp add: findBestMatch_Nil)
next
  case (Cons a rs)
  show ?case
  proof (cases "matchPattern e (toLowerCase e q) (patterns a) = None")
    case True
    with Cons.prems have "findBestMatch rs e q = Some r" by (simp add: findBestMatch_Cons)
    then obtain j where "j < length rs" "r = rs ! j" using Cons.IH by blast
    then have "Suc j < length (a # rs) \<and> r = (a # rs) ! Suc j" by simp
    then show ?thesis by blast
  next
    case False
    with Cons.prems have "r = a" by (simp add: findBestMatch_Cons)
    then have "0 < length (a # rs) \<and> r = (a # rs) ! 0" by simp
    then show ?thesis by blast
  qed
qed

subsection \<open>The matcher depends on the platform through the lower-cased strings only\<close>

lemma matchPattern_cong:
  "\<forall>p\<in>set ps. toLowerCase e p = toLowerCase e' p \<Longrightarrow>
     matchPattern e lq ps = matchPattern e' lq ps"
  by (induction ps) auto

lemma matchRule_cong:
  "\<forall>r\<in>set rs. \<forall>p\<in>set (patterns r). toLowerCase e p = toLowerCase e' p \<Longrightarrow>
     matchRule e lq rs = matchRule e' lq rs"
proof (induction rs)
  case Nil
  then show ?case by simp
next
  case (Cons r rs)
  then have "matchPattern e lq (patterns r) = matchPattern e' lq (patterns r)"
    by (simp add: matchPattern_cong)
  moreover from Cons have "matchRule e lq rs = matchRule e' lq rs" by simp
  ultimately show ?case by (simp split: option.splits)
qed

lemma findBestMatch_cong:
  assumes "toLowerCase e q = toLowerCase e' q"
    and "\<forall>r\<in>set rs. \<forall>p\<in>set (patterns r). toLowerCase e p = toLowerCase e' p"
  shows "findBestMatch rs e q = findBestMatch rs e' q"
  using assms matchRule_cong [of rs e e' "toLowerCase e' q"]
  by (simp add: findBestMatch_def)

lemma exampleEnv_lower: "toLowerCase exampleEnv = asciiLower"
  by (simp add: exampleEnv_def)

lemma asciiExact_exampleEnv: "asciiExact exampleEnv"
  by (simp add: asciiExact_def exampleEnv_lower)

lemma rules_ascii:
  "list_all (\<lambda>r. list_all (\<lambda>p. list_all isAscii p) (patterns r)) rules"
  by code_simp

lemma findBestMatch_rules_ascii:
  assumes "asciiExact e" and "\<forall>c\<in>set q. isAscii c"
  shows "findBestMatch rules e q = findBestMatch rules exampleEnv q"
proof (rule findBestMatch_cong)
  from assms show "toLowerCase e q = toLowerCase exampleEnv q"
    by (simp add: asciiExact_def exampleEnv_lower)
  from rules_ascii have "\<forall>r\<in>set rules. \<forall>p\<in>set (patterns r). \<forall>c\<in>set p. isAscii c"
    by (simp add: list_all_iff)
  with assms(1)
  show "\<forall>r\<in>set rules. \<forall>p\<in>set (patterns r). toLowerCase e p = toLowerCase exampleEnv p"
    by (simp add: asciiExact_def exampleEnv_lower)
qed

subsection \<open>Claim C1\<close>

text \<open>
  C1. For every query \<open>Q\<close>: when the rule at position \<open>i\<close> of the rule set has a
  pattern \<open>P\<close> that is a case-insensitive substring of \<open>Q\<close>, and no rule before
  position \<open>i\<close> has such a pattern, \<open>findBestMatch\<close> returns the rule at position
  \<open>i\<close>. Patterns and query are compared as the platform's \<open>toLowerCase\<close> returns
  them, whatever that function is, so the casing of neither matters.
\<close>

theorem findBestMatch_earliest_rule:
  assumes "i < length rs"
    and "P \<in> set (patterns (rs ! i))"
    and "caseInsensitiveSubstring e P Q"
    and "\<forall>j<i. \<forall>p\<in>set (patterns (rs ! j)). \<not> caseInsensitiveSubstring e p Q"
  shows "findBestMatch rs e Q = Some (rs ! i)"
  using assms
proof (induction rs arbitrary: i)
  case Nil
  then show ?case by simp
next
  case (Cons r rs)
  show ?case
  proof (cases i)
    case 0
    with Cons.prems(2,3) have "matchPattern e (toLowerCase e Q) (patterns r) \<noteq> None"
      by (auto simp: matchPattern_lower_None)
    with 0 show ?thesis by (auto simp: findBestMatch_Cons)
  next
    case (Suc k)
    from Cons.prems(4) Suc have "\<forall>p\<in>set (patterns ((r # rs) ! 0)). \<not> caseInsensitiveSubstring e p Q"
      by blast
    then have none: "matchPattern e (toLowerCase e Q) (patterns r) = None"
      by (simp add: matchPattern_lower_None)
    have "\<forall>j<k. \<forall>p\<in>set (patterns (rs ! j)). \<not> caseInsensitiveSubstring e p Q"
    proof (intro allI impI)
      fix j assume "j < k"
      then have "Suc j < i" using Suc by simp
      with Cons.prems(4) have "\<forall>p\<in>set (patterns ((r # rs) ! Suc j)). \<not> caseInsensitiveSubstring e p Q"
        by blast
      then show "\<forall>p\<in>set (patterns (rs ! j)). \<not> caseInsensitiveSubstring e p Q" by simp
    qed
    moreover from Cons.prems(1,2) Suc have "k < length rs" "P \<in> set (patterns (rs ! k))"
      by simp_all
    ultimately have "findBestMatch rs e Q = Some (rs ! k)"
      using Cons.IH Cons.prems(3) by blast
    with none Suc show ?thesis by (simp add: findBestMatch_Cons)
  qed
qed

theorem findBestMatch_earliest_rule_witness:
  "findBestMatch exampleRules exampleEnv ''rbac vs ABAC'' = Some (exampleRules ! 1) \<and>
   findBestMatch accentRules latin1Env [CHR 0xC9, CHR '' '', CHR ''e''] = Some (accentRules ! 0)"
proof
  show "findBestMatch exampleRules exampleEnv ''rbac vs ABAC'' = Some (exampleRules ! 1)"
  proof (rule findBestMatch_earliest_rule [where P = "''RBAC''"])
    show "1 < length exampleRules" by (simp add: exampleRules_def)
    show "''RBAC'' \<in> set (patterns (exampleRules ! 1))" by (simp add: exampleRules_def)
    show "caseInsensitiveSubstring exampleEnv ''RBAC'' ''rbac vs ABAC''" by code_simp
    have "\<forall>p\<in>set (patterns (exampleRules ! 0)).
            \<not> caseInsensitiveSubstring exampleEnv p ''rbac vs ABAC''"
      by code_simp
    then show "\<forall>j<1. \<forall>p\<in>set (patterns (exampleRules ! j)).
                 \<not> caseInsensitiveSubstring exampleEnv p ''rbac vs ABAC''"
      by simp
  qed
  show "findBestMatch accentRules latin1Env [CHR 0xC9, CHR '' '', CHR ''e''] =
          Some (accentRules ! 0)"
  proof (rule findBestMatch_earliest_rule [where P = "[CHR 0xE9]"])
    show "0 < length accentRules" by (simp add: accentRules_def)
    show "[CHR 0xE9] \<in> set (patterns (accentRules ! 0))" by (simp add: accentRules_def)
    show "caseInsensitiveSubstring latin1Env [CHR 0xE9] [CHR 0xC9, CHR '' '', CHR ''e'']"
      by code_simp
    show "\<forall>j<0. \<forall>p\<in>set (patterns (accentRules ! j)).
            \<not> caseInsensitiveSubstring latin1Env p [CHR 0xC9, CHR '' '', CHR ''e'']"
      by simp
  qed
qed

subsection \<open>Claim C2\<close>

text \<open>
  C2. For every query \<open>Q\<close> and every platform, whatever its \<open>toLowerCase\<close>: when no
  pattern of any rule of the rule set is a case-insensitive substring of \<open>Q\<close> (as
  that \<open>toLowerCase\<close> folds them), \<open>findBestMatch\<close> returns null and
  \<open>getContextForQuery\<close> returns the value with no rule, no content and
  \<open>matchFound = false\<close>; it is a returned value, not an error.
\<close>

theorem no_pattern_no_match:
  assumes "\<forall>r\<in>set rs. \<forall>p\<in>set (patterns r). \<not> caseInsensitiveSubstring e p Q"
  shows "findBestMatch rs e Q = None \<and>
         getContextForQuery rs e Q = Inr \<lparr> rule = None, content = None, matchFound = False \<rparr>"
proof -
  from assms have "findBestMatch rs e Q = None" by (simp add: findBestMatch_None)
  then show ?thesis by (simp add: getContextForQuery_def)
qed

theorem no_pattern_no_match_witness:
  "findBestMatch rules exampleEnv ''What's the weather today?'' = None \<and>
   getContextForQuery rules exampleEnv ''What's the weather today?'' =
     Inr \<lparr> rule = None, content = None, matchFound = False \<rparr> \<and>
   findBestMatch accentRules latin1Env [CHR 0xC8, CHR ''!''] = None \<and>
   getContextForQuery accentRules latin1Env [CHR 0xC8, CHR ''!''] =
     Inr \<lparr> rule = None, content = None, matchFound = False \<rparr>"
proof -
  have "\<forall>r\<in>set rules. \<forall>p\<in>set (patterns r).
          \<not> caseInsensitiveSubstring exampleEnv p ''What's the weather today?''"
    by code_simp
  then have a: "findBestMatch rules exampleEnv ''What's the weather today?'' = None \<and>
      getContextForQuery rules exampleEnv ''What's the weather today?'' =
        Inr \<lparr> rule = None, content = None, matchFound = False \<rparr>"
    by (rule no_pattern_no_match)
  have "\<forall>r\<in>set accentRules. \<forall>p\<in>set (patterns r).
          \<not> caseInsensitiveSubstring latin1Env p [CHR 0xC8, CHR ''!'']"
    by code_simp
  then have "findBestMatch accentRules latin1Env [CHR 0xC8, CHR ''!''] = None \<and>
      getContextForQuery accentRules latin1Env [CHR 0xC8, CHR ''!''] =
        Inr \<lparr> rule = None, content = None, matchFound = False \<rparr>"
    by (rule no_pattern_no_match)
  with a show ?thesis by simp
qed

lemma matchPattern_None_mset:
  "mset ps' = mset ps \<Longrightarrow> matchPattern e lq ps' = None \<longleftrightarrow> matchPattern e lq ps = None"
  using mset_eq_setD [of ps' ps] by (simp add: matchPattern_None)

subsection \<open>Claim C5\<close>

text \<open>
  C5. For every query \<open>Q\<close>: replacing the pattern list of one rule (the one at
  position \<open>i\<close>) by a permutation of it, with the order of the rules unchanged, does
  not change which rule \<open>findBestMatch\<close> returns: either both rule sets give null, or
  both give the rule at one and the same position \<open>j\<close>.
\<close>

theorem findBestMatch_pattern_order:
  assumes "i < length rs" and "mset ps' = mset (patterns (rs ! i))"
  shows "(findBestMatch rs e Q = None \<and>
          findBestMatch (rs[i := (rs ! i)\<lparr>patterns := ps'\<rparr>]) e Q = None) \<or>
         (\<exists>j<length rs.
            findBestMatch rs e Q = Some (rs ! j) \<and>
            findBestMatch (rs[i := (rs ! i)\<lparr>patterns := ps'\<rparr>]) e Q =
              Some ((rs[i := (rs ! i)\<lparr>patterns := ps'\<rparr>]) ! j))"
  using assms
proof (induction rs arbitrary: i)
  case Nil
  then show ?case by simp
next
  case (Cons r rs)
  let ?lq = "toLowerCase e Q"
  show ?case
  proof (cases i)
    case 0
    let ?r' = "r\<lparr>patterns := ps'\<rparr>"
    from Cons.prems(2) 0 have "mset ps' = mset (patterns r)" by simp
    then have same: "matchPattern e ?lq ps' = None \<longleftrightarrow> matchPattern e ?lq (patterns r) = None"
      by (rule matchPattern_None_mset)
    show ?thesis
    proof (cases "matchPattern e ?lq (patterns r) = None")
      case True
      with same have tl: "findBestMatch (r # rs) e Q = findBestMatch rs e Q"
        "findBestMatch (?r' # rs) e Q = findBestMatch rs e Q"
        by (simp_all add: findBestMatch_Cons)
      show ?thesis
      proof (cases "findBestMatch rs e Q")
        case None
        with tl 0 show ?thesis by simp
      next
        case (Some x)
        then obtain j where j: "j < length rs" "x = rs ! j"
          using findBestMatch_Some_index by blast
        with Some tl 0 have "Suc j < length (r # rs) \<and>
            findBestMatch (r # rs) e Q = Some ((r # rs) ! Suc j) \<and>
            findBestMatch ((r # rs)[i := ((r # rs) ! i)\<lparr>patterns := ps'\<rparr>]) e Q =
              Some (((r # rs)[i := ((r # rs) ! i)\<lparr>patterns := ps'\<rparr>]) ! Suc j)"
          by simp
        then show ?thesis by blast
      qed
    next
      case False
      with same 0 have "0 < length (r # rs) \<and>
            findBestMatch (r # rs) e Q = Some ((r # rs) ! 0) \<and>
            findBestMatch ((r # rs)[i := ((r # rs) ! i)\<lparr>patterns := ps'\<rparr>]) e Q =
              Some (((r # rs)[i := ((r # rs) ! i)\<lparr>patterns := ps'\<rparr>]) ! 0)"
        by (auto simp: findBestMatch_Cons)
      then show ?thesis by blast
    qed
  next
    case (Suc k)
    let ?rs' = "rs[k := (rs ! k)\<lparr>patterns := ps'\<rparr>]"
    from Suc have upd: "(r # rs)[i := ((r # rs) ! i)\<lparr>patterns := ps'\<rparr>] = r # ?rs'"
      by simp
    show ?thesis
    proof (cases "matchPattern e ?lq (patterns r) = None")
      case False
      then have "0 < length (r # rs) \<and>
            findBestMatch (r # rs) e Q = Some ((r # rs) ! 0) \<and>
            findBestMatch (r # ?rs') e Q = Some ((r # ?rs') ! 0)"
        by (auto simp: findBestMatch_Cons)
      then show ?thesis unfolding upd by blast
    next
      case True
      then have tl: "findBestMatch (r # rs) e Q = findBestMatch rs e Q"
        "findBestMatch (r # ?rs') e Q = findBestMatch ?rs' e Q"
        by (simp_all add: findBestMatch_Cons)
      from Cons.prems Suc have "k < length rs" "mset ps' = mset (patterns (rs ! k))"
        by simp_all
      from Cons.IH [OF this]
      show ?thesis
      proof
        assume "findBestMatch rs e Q = None \<and> findBestMatch ?rs' e Q = None"
        with tl show ?thesis unfolding upd by simp
      next
        assume "\<exists>j<length rs. findBestMatch rs e Q = Some (rs ! j) \<and>
                  findBestMatch ?rs' e Q = Some (?rs' ! j)"
        then obtain j where "j < length rs" "findBestMatch rs e Q = Some (rs ! j)"
          "findBestMatch ?rs' e Q = Some (?rs' ! j)" by blast
        with tl have "Suc j < length (r # rs) \<and>
            findBestMatch (r # rs) e Q = Some ((r # rs) ! Suc j) \<and>
            findBestMatch (r # ?rs') e Q = Some ((r # ?rs') ! Suc j)"
          by simp
        then show ?thesis unfolding upd by blast
      qed
    qed
  qed
qed

theorem findBestMatch_pattern_order_witness:
  "findBestMatch exampleRules exampleEnv ''rbac vs ABAC'' = Some (exampleRules ! 1) \<and>
   findBestMatch (exampleRules[1 := (exampleRules ! 1)\<lparr>patterns := [''RBAC'', ''zanzibar'']\<rparr>]) exampleEnv
       ''rbac vs ABAC'' =
     Some ((exampleRules[1 := (exampleRules ! 1)\<lparr>patterns := [''RBAC'', ''zanzibar'']\<rparr>]) ! 1)"
proof -
  have len: "1 < length exampleRules" by (simp add: exampleRules_def)
  have perm: "mset [''RBAC'', ''zanzibar''] = mset (patterns (exampleRules ! 1))"
    by (simp add: exampleRules_def)
  have a: "findBestMatch exampleRules exampleEnv ''rbac vs ABAC'' = Some (exampleRules ! 1)"
    by code_simp
  have b: "findBestMatch (exampleRules[1 := (exampleRules ! 1)\<lparr>patterns := [''RBAC'', ''zanzibar'']\<rparr>]) exampleEnv
       ''rbac vs ABAC'' =
     Some ((exampleRules[1 := (exampleRules ! 1)\<lparr>patterns := [''RBAC'', ''zanzibar'']\<rparr>]) ! 1)"
    by code_simp
  from findBestMatch_pattern_order [OF len perm, where Q = "''rbac vs ABAC''" and e = exampleEnv] a b
  show ?thesis by simp
qed

subsection \<open>Claim C7\<close>

lemma isWhitespace_isAscii: "isWhitespace c \<Longrightarrow> isAscii c"
  by (auto simp: isWhitespace_def isAscii_def)

lemma asciiLowerChar_whitespace: "isWhitespace c \<Longrightarrow> asciiLowerChar c = c"
  by (auto simp: isWhitespace_def asciiLowerChar_def)

lemma asciiLower_whitespace: "\<forall>c\<in>set q. isWhitespace c \<Longrightarrow> asciiLower q = q"
  by (simp add: asciiLower_def asciiLowerChar_whitespace map_idI)

lemma str_includes_set: "str_includes s p \<Longrightarrow> set p \<subseteq> set s"
  by (simp add: str_includes_sublist set_mono_sublist)

lemma rules_patterns_visible:
  "list_all (\<lambda>r. list_all (\<lambda>p. list_ex (\<lambda>c. \<not> isWhitespace c) (asciiLower p)) (patterns r)) rules"
  by code_simp

lemma findBestMatch_blank_ascii:
  assumes ws: "\<forall>c\<in>set q. isWhitespace c"
  shows "findBestMatch rules exampleEnv q = None"
proof -
  have "\<not> caseInsensitiveSubstring exampleEnv p q"
    if "r \<in> set rules" "p \<in> set (patterns r)" for r p
  proof
    assume "caseInsensitiveSubstring exampleEnv p q"
    then have "set (asciiLower p) \<subseteq> set q"
      using ws
      by (simp add: caseInsensitiveSubstring_def exampleEnv_lower asciiLower_whitespace
            set_mono_sublist)
    with ws have "\<forall>c\<in>set (asciiLower p). isWhitespace c" by blast
    moreover from that rules_patterns_visible
    have "\<exists>c\<in>set (asciiLower p). \<not> isWhitespace c"
      by (auto simp: list_all_iff list_ex_iff)
    ultimately show False by blast
  qed
  then show ?thesis by (simp add: findBestMatch_None)
qed

text \<open>
  C7. On the configured rule table, on every platform (its \<open>toLowerCase\<close> is the
  ASCII fold on ASCII strings), \<open>findBestMatch\<close> returns null for the empty query and
  for every query made of white space only; the function has no error branch, so
  nothing is raised.
\<close>

theorem findBestMatch_blank_query:
  assumes "asciiExact e"
  shows "findBestMatch rules e '''' = None \<and>
         ((\<forall>c\<in>set q. isWhitespace c) \<longrightarrow> findBestMatch rules e q = None)"
proof -
  have blank: "findBestMatch rules e q = None" if ws: "\<forall>c\<in>set q. isWhitespace c" for q
  proof -
    from ws have "\<forall>c\<in>set q. isAscii c" by (simp add: isWhitespace_isAscii)
    with assms have "findBestMatch rules e q = findBestMatch rules exampleEnv q"
      by (rule findBestMatch_rules_ascii)
    with ws show ?thesis by (simp add: findBestMatch_blank_ascii)
  qed
  have "findBestMatch rules e '''' = None" by (rule blank) simp
  with blank show ?thesis by blast
qed

theorem findBestMatch_blank_query_witness:
  "findBestMatch rules exampleEnv '''' = None \<and>
   findBestMatch rules exampleEnv [CHR '' '', CHR 0x09, CHR '' '', CHR 0x0A] = None"
proof -
  have "\<forall>c\<in>set [CHR '' '', CHR 0x09, CHR '' '', CHR 0x0A]. isWhitespace c"
    by (simp add: isWhitespace_def)
  with findBestMatch_blank_query [OF asciiExact_exampleEnv,
         of "[CHR '' '', CHR 0x09, CHR '' '', CHR 0x0A]"]
  show ?thesis by blast
qed

subsection \<open>Claim C9\<close>

text \<open>
  C9. Whenever \<open>getContextForQuery\<close> returns a value rather than an error,
  \<open>matchFound\<close> is true exactly when \<open>rule\<close> is not null, and exactly when
  \<open>content\<close> is not null.
\<close>

theorem getContextForQuery_shape:
  assumes "getContextForQuery rs e Q = Inr res"
  shows "(matchFound res \<longleftrightarrow> rule res \<noteq> None) \<and> (matchFound res \<longleftrightarrow> content res \<noteq> None)"
  using assms
  by (auto simp: getContextForQuery_def split: option.splits sum.splits)

theorem getContextForQuery_shape_witness:
  "getContextForQuery rules exampleEnv ''How do I create an OpenFGA authorization model?'' =
     Inr \<lparr> rule = Some (hd rules), content = Some ''# OpenFGA modeling guide'', matchFound = True \<rparr> \<and>
   (matchFound \<lparr> rule = Some (hd rules), content = Some ''# OpenFGA modeling guide'', matchFound = True \<rparr>
      \<longleftrightarrow> rule \<lparr> rule = Some (hd rules), content = Some ''# OpenFGA modeling guide'', matchFound = True \<rparr> \<noteq> None) \<and>
   (matchFound \<lparr> rule = Some (hd rules), content = Some ''# OpenFGA modeling guide'', matchFound = True \<rparr>
      \<longleftrightarrow> content \<lparr> rule = Some (hd rules), content = Some ''# OpenFGA modeling guide'', matchFound = True \<rparr> \<noteq> None)"
proof -
  have a: "getContextForQuery rules exampleEnv ''How do I create an OpenFGA authorization model?'' =
     Inr \<lparr> rule = Some (hd rules), content = Some ''# OpenFGA modeling guide'', matchFound = True \<rparr>"
    by code_simp
  from getContextForQuery_shape [OF a] a show ?thesis by blast
qed

subsection \<open>Claim C4\<close>

text \<open>
  C4. On every platform (its \<open>toLowerCase\<close> is the ASCII fold on ASCII strings),
  with the document \<open>authorization-model.md\<close> readable in the documents directory
  and \<open>doc\<close> its full text, \<open>getContextForQuery\<close> on the configured rule table
  answers the query \<open>How do I create an OpenFGA authorization model?\<close> with
  \<open>matchFound = true\<close>, a rule described as \<open>Author authorization models with
  OpenFGA\<close>, and the content \<open>doc\<close>.
\<close>

theorem getContextForQuery_scenario:
  assumes "asciiExact e"
    and "readFile e (path_join [path_join [cwd e, ''prompts''], ''authorization-model.md'']) = Inr doc"
  shows "\<exists>r. getContextForQuery rules e ''How do I create an OpenFGA authorization model?'' =
           Inr \<lparr> rule = Some r, content = Some doc, matchFound = True \<rparr> \<and>
         description r = ''Author authorization models with OpenFGA''"
proof -
  have "\<forall>c\<in>set ''How do I create an OpenFGA authorization model?''. isAscii c"
    by code_simp
  with assms(1)
  have "findBestMatch rules e ''How do I create an OpenFGA authorization model?'' =
        findBestMatch rules exampleEnv ''How do I create an OpenFGA authorization model?''"
    by (rule findBestMatch_rules_ascii)
  moreover
  have "findBestMatch rules exampleEnv ''How do I create an OpenFGA authorization model?'' =
        Some (hd rules)"
    by code_simp
  moreover have "promptFile (hd rules) = ''authorization-model.md''"
    by (simp add: rules_def)
  moreover have "description (hd rules) = ''Author authorization models with OpenFGA''"
    by (simp add: rules_def)
  ultimately show ?thesis
    using assms(2) by (simp add: getContextForQuery_def loadPromptContent_def)
qed

theorem getContextForQuery_scenario_witness:
  "\<exists>r. getContextForQuery rules exampleEnv ''How do I create an OpenFGA authorization model?'' =
           Inr \<lparr> rule = Some r, content = Some ''# OpenFGA modeling guide'', matchFound = True \<rparr> \<and>
         description r = ''Author authorization models with OpenFGA''"
proof (rule getContextForQuery_scenario)
  show "asciiExact exampleEnv" by (rule asciiExact_exampleEnv)
  show "readFile exampleEnv (path_join [path_join [cwd exampleEnv, ''prompts''], ''authorization-model.md'']) =
          Inr ''# OpenFGA modeling guide''"
    by code_simp
qed

subsection \<open>Claim C3\<close>

text \<open>
  C3, as the code has it. When the file a document reference resolves to cannot be
  read, \<open>loadPromptContent\<close> fails with a plain \<open>Error\<close> whose message is
  \<open>Failed to load prompt file\<close>, the document reference as it was passed, and the
  text of the underlying I/O error; the resolved path is in it only where the text of
  the I/O error mentions it. In \<open>getContextForQuery\<close>, for a rule that matched, the
  failure comes back as an error (\<open>Error loading context:\<close> and the text of that
  error), never as the no-match value.
\<close>

theorem loadPromptContent_failure:
  assumes "readFile e (path_join [path_join [cwd e, ''prompts''], file]) = Inl err"
  shows "loadPromptContent e file =
           Inl (Error (''Failed to load prompt file '' @ file @ '': '' @ errorToString err)) \<and>
         (\<forall>rs q r. findBestMatch rs e q = Some r \<and> promptFile r = file \<longrightarrow>
            getContextForQuery rs e q =
              Inl (Error (''Error loading context: Error: Failed to load prompt file '' @ file @
                          '': '' @ errorToString err)) \<and>
            getContextForQuery rs e q \<noteq> Inr \<lparr> rule = None, content = None, matchFound = False \<rparr>)"
proof -
  from assms have load: "loadPromptContent e file =
      Inl (Error (''Failed to load prompt file '' @ file @ '': '' @ errorToString err))"
    by (simp add: loadPromptContent_def)
  then show ?thesis
    by (simp add: getContextForQuery_def)
qed

theorem loadPromptContent_failure_witness:
  "loadPromptContent exampleEnv ''weather.md'' =
     Inl (Error (''Failed to load prompt file weather.md: Error: ENOENT: no such file or directory, open '' @
                 [CHR 0x27] @ ''/app/prompts/weather.md'' @ [CHR 0x27])) \<and>
   getContextForQuery exampleRules exampleEnv ''Weather forecast'' =
     Inl (Error (''Error loading context: Error: Failed to load prompt file weather.md: Error: ENOENT: no such file or directory, open '' @
                 [CHR 0x27] @ ''/app/prompts/weather.md'' @ [CHR 0x27]))"
proof -
  have rd: "readFile exampleEnv (path_join [path_join [cwd exampleEnv, ''prompts''], ''weather.md'']) =
      Inl (Error (''ENOENT: no such file or directory, open '' @ [CHR 0x27] @ ''/app/prompts/weather.md'' @ [CHR 0x27]))"
    by code_simp
  have m: "findBestMatch exampleRules exampleEnv ''Weather forecast'' = Some (hd exampleRules)"
    by code_simp
  have f: "promptFile (hd exampleRules) = ''weather.md''"
    by (simp add: exampleRules_def)
  from loadPromptContent_failure [OF rd] m f show ?thesis
    by simp
qed

text \<open>
  C3 as stated asks for the attempted path in the error. Reading the documents
  directory itself (the reference \<open>.\<close> resolves to \<open>/app/prompts\<close>) is refused with
  \<open>EISDIR\<close>, whose text names no path: the error \<open>loadPromptContent\<close> raises then
  has the reference \<open>.\<close> and the text of the I/O error, and not the path.
\<close>

theorem loadPromptContent_error_without_path:
  "path_join [path_join [cwd exampleEnv, ''prompts''], ''.''] = ''/app/prompts'' \<and>
   loadPromptContent exampleEnv ''.'' =
     Inl (Error ''Failed to load prompt file .: Error: EISDIR: illegal operation on a directory, read'') \<and>
   \<not> sublist ''/app/prompts''
       ''Failed to load prompt file .: Error: EISDIR: illegal operation on a directory, read''"
  by code_simp

section \<open>Calls: auxiliary facts\<close>

text \<open>
  The value a call returns is the value of the function of the same name on the rules
  in the store, and no call changes those rules.
\<close>

lemma currentRules_stderr: "currentRules (st\<lparr> stderr := l \<rparr>) = currentRules st"
  by (simp add: currentRules_def readRules_def readRule_def)

lemma findBestMatch_call_value:
  "fst (findBestMatch_call e q st) = findBestMatch (currentRules st) e q"
  by (simp add: findBestMatch_call_def findBestMatch_def currentRules_stderr Let_def
           split: option.splits prod.splits)

lemma findBestMatch_call_rules:
  "currentRules (snd (findBestMatch_call e q st)) = currentRules st"
  by (simp add: findBestMatch_call_def currentRules_stderr Let_def
           split: option.splits prod.splits)

lemma loadPromptContent_call_value:
  "fst (loadPromptContent_call e file st) = loadPromptContent e file"
  by (simp add: loadPromptContent_call_def loadPromptContent_def Let_def split: sum.splits)

lemma loadPromptContent_call_rules:
  "currentRules (snd (loadPromptContent_call e file st)) = currentRules st"
  by (simp add: loadPromptContent_call_def currentRules_stderr Let_def split: sum.splits)

lemma getContextForQuery_call_value:
  "fst (getContextForQuery_call e q st) = getContextForQuery (currentRules st) e q"
proof -
  obtain r st1 where f: "findBestMatch_call e q st = (r, st1)" by (cases "findBestMatch_call e q st")
  then have r: "findBestMatch (currentRules st) e q = r"
    using findBestMatch_call_value [of e q st] by simp
  show ?thesis
  proof (cases r)
    case None
    with f r show ?thesis by (simp add: getContextForQuery_call_def getContextForQuery_def)
  next
    case (Some x)
    obtain c st2 where l: "loadPromptContent_call e (promptFile x) st1 = (c, st2)"
      by (cases "loadPromptContent_call e (promptFile x) st1")
    then have "loadPromptContent e (promptFile x) = c"
      using loadPromptContent_call_value [of e "promptFile x" st1] by simp
    with f r Some l show ?thesis
      by (simp add: getContextForQuery_call_def getContextForQuery_def split: sum.splits)
  qed
qed

lemma getContextForQuery_call_rules:
  "currentRules (snd (getContextForQuery_call e q st)) = currentRules st"
proof -
  obtain r st1 where f: "findBestMatch_call e q st = (r, st1)" by (cases "findBestMatch_call e q st")
  then have st1: "currentRules st1 = currentRules st"
    using findBestMatch_call_rules [of e q st] by simp
  show ?thesis
  proof (cases r)
    case None
    with f st1 show ?thesis by (simp add: getContextForQuery_call_def)
  next
    case (Some x)
    obtain c st2 where l: "loadPromptContent_call e (promptFile x) st1 = (c, st2)"
      by (cases "loadPromptContent_call e (promptFile x) st1")
    then have "currentRules st2 = currentRules st1"
      using loadPromptContent_call_rules [of e "promptFile x" st1] by simp
    with f st1 Some l show ?thesis
      by (simp add: getContextForQuery_call_def split: sum.splits)
  qed
qed

lemma newPromptMatcher_rules: "currentRules newPromptMatcher = rules"
  by (simp add: currentRules_def readRules_def readRule_def newPromptMatcher_def rules_def)

subsection \<open>Claim C6\<close>

text \<open>
  C6. For every query \<open>Q\<close>, store and environment: a second call of
  \<open>getContextForQuery\<close> with \<open>Q\<close>, made in the store the first call left and in the
  same environment, returns the result of the first call (the same rule, content and
  \<open>matchFound\<close>, or the same error), and the first call leaves the rule set as it
  was. Only the diagnostics on \<open>stderr\<close> grow.
\<close>

theorem getContextForQuery_twice:
  "fst (getContextForQuery_call e Q (snd (getContextForQuery_call e Q st))) =
     fst (getContextForQuery_call e Q st) \<and>
   currentRules (snd (getContextForQuery_call e Q st)) = currentRules st"
  by (simp add: getContextForQuery_call_value getContextForQuery_call_rules)

theorem getContextForQuery_twice_witness:
  "fst (getContextForQuery_call exampleEnv ''RBAC vs ABAC''
          (snd (getContextForQuery_call exampleEnv ''RBAC vs ABAC'' newPromptMatcher))) =
     Inr \<lparr> rule = Some (hd rules), content = Some ''# OpenFGA modeling guide'', matchFound = True \<rparr> \<and>
   fst (getContextForQuery_call exampleEnv ''RBAC vs ABAC'' newPromptMatcher) =
     Inr \<lparr> rule = Some (hd rules), content = Some ''# OpenFGA modeling guide'', matchFound = True \<rparr> \<and>
   stderr (snd (getContextForQuery_call exampleEnv ''RBAC vs ABAC'' newPromptMatcher)) =
     [MatchingQuery ''RBAC vs ABAC'',
      PatternMatchFound ''rbac'' ''authorization-model.md'',
      LoadingPromptFile ''/app/prompts/authorization-model.md'',
      LoadedPromptFile ''authorization-model.md'' 24]"
proof -
  have a: "fst (getContextForQuery_call exampleEnv ''RBAC vs ABAC'' newPromptMatcher) =
     Inr \<lparr> rule = Some (hd rules), content = Some ''# OpenFGA modeling guide'', matchFound = True \<rparr>"
    by code_simp
  have b: "stderr (snd (getContextForQuery_call exampleEnv ''RBAC vs ABAC'' newPromptMatcher)) =
     [MatchingQuery ''RBAC vs ABAC'',
      PatternMatchFound ''rbac'' ''authorization-model.md'',
      LoadingPromptFile ''/app/prompts/authorization-model.md'',
      LoadedPromptFile ''authorization-model.md'' 24]"
    by code_simp
  from getContextForQuery_twice [of exampleEnv "''RBAC vs ABAC''" newPromptMatcher] a b
  show ?thesis by simp
qed

subsection \<open>Claim C8\<close>

lemma readRule_ruleArrays: "readRule (st\<lparr> ruleArrays := f \<rparr>) a = readRule st a"
  by (simp add: readRule_def)

lemma readRule_nextRef: "readRule (st\<lparr> nextRef := n \<rparr>) a = readRule st a"
  by (simp add: readRule_def)

lemma getAllRules_call_rules:
  "thisRules st < nextRef st \<Longrightarrow> currentRules (snd (getAllRules_call st)) = currentRules st"
  by (simp add: getAllRules_call_def currentRules_def readRules_def readRule_def)

lemma getAllRules_call_value:
  "readRules (snd (getAllRules_call st)) (fst (getAllRules_call st)) = currentRules st"
  by (simp add: getAllRules_call_def currentRules_def readRules_def readRule_def)

lemma getAllRules_call_returns:
  "readRules (snd (getAllRules_call st)) (fst (getAllRules_call st)) =
     getAllRules (currentRules st)"
  by (simp add: getAllRules_call_value getAllRules_def)

lemma setArray_returned_rules:
  "thisRules st < nextRef st \<Longrightarrow>
     currentRules (setArray (fst (getAllRules_call st)) xs (snd (getAllRules_call st))) =
       currentRules st"
  by (simp add: setArray_def getAllRules_call_def currentRules_def readRules_def readRule_def)

text \<open>
  C8, as the code has it. In a store where the allocator has not yet handed out an
  address beyond the engine's own array, \<open>getAllRules\<close> returns a new array holding
  the references of \<open>this.rules\<close> in the same order, so it reads as the configured
  rules, with their number as its length. Whatever list \<open>xs\<close> of references a caller
  then puts into the returned array, the rule set of the engine and the results of
  later \<open>findBestMatch\<close>, \<open>getContextForQuery\<close> and \<open>getAllRules\<close> calls are what
  they were.
\<close>

theorem getAllRules_copy:
  assumes "thisRules st < nextRef st"
  shows "ruleArrays (snd (getAllRules_call st)) (fst (getAllRules_call st)) =
           ruleArrays st (thisRules st) \<and>
         readRules (snd (getAllRules_call st)) (fst (getAllRules_call st)) = currentRules st \<and>
         length (readRules (snd (getAllRules_call st)) (fst (getAllRules_call st))) =
           length (currentRules st) \<and>
         (\<forall>xs q e.
            currentRules (setArray (fst (getAllRules_call st)) xs (snd (getAllRules_call st))) =
              currentRules st \<and>
            fst (findBestMatch_call e q
                   (setArray (fst (getAllRules_call st)) xs (snd (getAllRules_call st)))) =
              fst (findBestMatch_call e q st) \<and>
            fst (getContextForQuery_call e q
                   (setArray (fst (getAllRules_call st)) xs (snd (getAllRules_call st)))) =
              fst (getContextForQuery_call e q st) \<and>
            readRules
              (snd (getAllRules_call
                      (setArray (fst (getAllRules_call st)) xs (snd (getAllRules_call st)))))
              (fst (getAllRules_call
                      (setArray (fst (getAllRules_call st)) xs (snd (getAllRules_call st))))) =
              currentRules st)"
proof -
  have "ruleArrays (snd (getAllRules_call st)) (fst (getAllRules_call st)) =
          ruleArrays st (thisRules st)"
    by (simp add: getAllRules_call_def)
  moreover have "\<forall>xs q e.
            currentRules (setArray (fst (getAllRules_call st)) xs (snd (getAllRules_call st))) =
              currentRules st \<and>
            fst (findBestMatch_call e q
                   (setArray (fst (getAllRules_call st)) xs (snd (getAllRules_call st)))) =
              fst (findBestMatch_call e q st) \<and>
            fst (getContextForQuery_call e q
                   (setArray (fst (getAllRules_call st)) xs (snd (getAllRules_call st)))) =
              fst (getContextForQuery_call e q st) \<and>
            readRules
              (snd (getAllRules_call
                      (setArray (fst (getAllRules_call st)) xs (snd (getAllRules_call st)))))
              (fst (getAllRules_call
                      (setArray (fst (getAllRules_call st)) xs (snd (getAllRules_call st))))) =
              currentRules st"
    using assms
    by (simp add: findBestMatch_call_value getContextForQuery_call_value
          getAllRules_call_value setArray_returned_rules)
  ultimately show ?thesis
    by (simp add: getAllRules_call_value)
qed

theorem getAllRules_copy_witness:
  "fst (getAllRules_call newPromptMatcher) = 3 \<and>
   readRules (snd (getAllRules_call newPromptMatcher)) (fst (getAllRules_call newPromptMatcher)) = rules \<and>
   length (readRules (snd (getAllRules_call newPromptMatcher)) (fst (getAllRules_call newPromptMatcher))) = 1 \<and>
   readRules (setArray 3 [] (snd (getAllRules_call newPromptMatcher))) 3 = [] \<and>
   currentRules (setArray 3 [] (snd (getAllRules_call newPromptMatcher))) = rules \<and>
   fst (findBestMatch_call exampleEnv ''RBAC vs ABAC'' (setArray 3 [] (snd (getAllRules_call newPromptMatcher)))) =
     Some (hd rules)"
proof -
  have wf: "thisRules newPromptMatcher < nextRef newPromptMatcher"
    by (simp add: newPromptMatcher_def)
  have a: "fst (getAllRules_call newPromptMatcher) = 3"
    by (simp add: getAllRules_call_def newPromptMatcher_def)
  have b: "readRules (setArray 3 [] (snd (getAllRules_call newPromptMatcher))) 3 = []"
    by (simp add: readRules_def setArray_def getAllRules_call_def)
  have c: "fst (findBestMatch_call exampleEnv ''RBAC vs ABAC'' newPromptMatcher) = Some (hd rules)"
    by code_simp
  have d: "length rules = 1" by (simp add: rules_def)
  from getAllRules_copy [OF wf] a b c d show ?thesis
    by (simp add: newPromptMatcher_rules)
qed

text \<open>
  C8 as stated says that a caller cannot change the engine through the returned
  value. The copy is shallow: the rule objects in the returned array are the engine's
  own. After \<open>getAllRules()[0].patterns.push('weather')\<close> the query
  \<open>What's the weather today?\<close>, which matched nothing, matches the configured rule.
\<close>

theorem getAllRules_shares_rule_objects:
  "fst (findBestMatch_call exampleEnv ''What's the weather today?'' newPromptMatcher) = None \<and>
   fst (findBestMatch_call exampleEnv ''What's the weather today?''
          (pushPattern (fst (getAllRules_call newPromptMatcher)) 0 ''weather''
             (snd (getAllRules_call newPromptMatcher)))) =
     Some ((hd rules)\<lparr> patterns := patterns (hd rules) @ [''weather''] \<rparr>)"
  by code_simp

section \<open>Paths: auxiliary facts\<close>

text \<open>
  Splitting and joining at a separator are inverse on segments free of the separator;
  the normalised segments are some \<open>..\<close> followed by ordinary segments, and
  normalising them again changes nothing. Hence joining in two steps, as
  \<open>loadPromptContent\<close> does, gives the path of the single join of the three parts.
\<close>

lemma str_split_not_Nil: "str_split s x \<noteq> []"
  by (induction x) (auto split: list.splits)

lemma str_split_append: "str_split s (x @ s # y) = str_split s x @ str_split s y"
proof (induction x)
  case Nil
  then show ?case by simp
next
  case (Cons c cs)
  then show ?case
    using str_split_not_Nil [of s cs] by (cases "str_split s cs") auto
qed

lemma str_split_no_sep: "s \<notin> set x \<Longrightarrow> str_split s x = [x]"
  by (induction x) auto

lemma str_split_segments: "seg \<in> set (str_split s x) \<Longrightarrow> s \<notin> set seg"
proof (induction x arbitrary: seg)
  case Nil
  then show ?case by simp
next
  case (Cons c cs)
  then show ?case
    using str_split_not_Nil [of s cs]
    by (cases "str_split s cs") (auto split: if_splits)
qed

lemma str_split_join:
  "segs \<noteq> [] \<Longrightarrow> \<forall>seg\<in>set segs. s \<notin> set seg \<Longrightarrow> str_split s (str_join [s] segs) = segs"
proof (induction "[s]" segs rule: str_join.induct)
  case 1
  then show ?case by simp
next
  case (2 x)
  then show ?case by (simp add: str_split_no_sep)
next
  case (3 x y ys)
  then show ?case by (simp add: str_split_append str_split_no_sep)
qed

lemma normalizeSegments_append:
  "normalizeSegments a acc (xs @ ys) = normalizeSegments a (rev (normalizeSegments a acc xs)) ys"
  by (induction a acc xs rule: normalizeSegments.induct) (auto split: list.splits)

lemma normalizeSegments_plain:
  "\<forall>y\<in>set ys. y \<noteq> [] \<and> y \<noteq> ''.'' \<and> y \<noteq> ''..'' \<Longrightarrow> normalizeSegments a acc ys = rev acc @ ys"
  by (induction ys arbitrary: acc) auto

lemma normalizeSegments_dots:
  "normalizeSegments True (replicate n ''..'') (replicate m ''..'' @ ys) =
     normalizeSegments True (replicate (n + m) ''..'') ys"
proof (induction m arbitrary: n)
  case 0
  then show ?case by simp
next
  case (Suc m)
  have "normalizeSegments True (replicate n ''..'') (''..'' # replicate m ''..'' @ ys) =
        normalizeSegments True (replicate (Suc n) ''..'') (replicate m ''..'' @ ys)"
    by (cases n) simp_all
  with Suc [of "Suc n"] show ?case by simp
qed

lemma normalizeSegments_shape:
  assumes "\<forall>y\<in>set ys0. y \<noteq> [] \<and> y \<noteq> ''.'' \<and> y \<noteq> ''..''" and "\<not> a \<longrightarrow> n0 = 0"
  shows "\<exists>n ys. normalizeSegments a (rev ys0 @ replicate n0 ''..'') xs = replicate n ''..'' @ ys \<and>
           (\<not> a \<longrightarrow> n = 0) \<and>
           (\<forall>y\<in>set ys. y \<noteq> [] \<and> y \<noteq> ''.'' \<and> y \<noteq> ''..'') \<and>
           set ys \<subseteq> set ys0 \<union> set xs"
  using assms
proof (induction xs arbitrary: ys0 n0)
  case Nil
  have "normalizeSegments a (rev ys0 @ replicate n0 ''..'') [] = replicate n0 ''..'' @ ys0"
    by simp
  with Nil show ?case by blast
next
  case (Cons seg xs)
  let ?acc = "rev ys0 @ replicate n0 ''..''"
  consider (skip) "seg = [] \<or> seg = ''.''" | (up) "seg = ''..''"
    | (plain) "seg \<noteq> [] \<and> seg \<noteq> ''.'' \<and> seg \<noteq> ''..''"
    by blast
  then show ?case
  proof cases
    case skip
    then have step: "normalizeSegments a ?acc (seg # xs) = normalizeSegments a ?acc xs"
      by auto
    from Cons.IH [OF Cons.prems] obtain n ys where
      "normalizeSegments a ?acc xs = replicate n ''..'' @ ys"
      "\<not> a \<longrightarrow> n = 0" "\<forall>y\<in>set ys. y \<noteq> [] \<and> y \<noteq> ''.'' \<and> y \<noteq> ''..''"
      "set ys \<subseteq> set ys0 \<union> set xs" by blast
    with step have "normalizeSegments a ?acc (seg # xs) = replicate n ''..'' @ ys \<and>
           (\<not> a \<longrightarrow> n = 0) \<and>
           (\<forall>y\<in>set ys. y \<noteq> [] \<and> y \<noteq> ''.'' \<and> y \<noteq> ''..'') \<and>
           set ys \<subseteq> set ys0 \<union> set (seg # xs)"
      by (simp add: subset_insertI2)
    then show ?thesis by blast
  next
    case plain
    then have step: "normalizeSegments a ?acc (seg # xs) =
        normalizeSegments a (rev (ys0 @ [seg]) @ replicate n0 ''..'') xs"
      by simp
    from Cons.prems plain have "\<forall>y\<in>set (ys0 @ [seg]). y \<noteq> [] \<and> y \<noteq> ''.'' \<and> y \<noteq> ''..''"
      by simp
    from Cons.IH [OF this Cons.prems(2)] obtain n ys where
      "normalizeSegments a (rev (ys0 @ [seg]) @ replicate n0 ''..'') xs = replicate n ''..'' @ ys"
      "\<not> a \<longrightarrow> n = 0" "\<forall>y\<in>set ys. y \<noteq> [] \<and> y \<noteq> ''.'' \<and> y \<noteq> ''..''"
      "set ys \<subseteq> set (ys0 @ [seg]) \<union> set xs" by blast
    with step have "normalizeSegments a ?acc (seg # xs) = replicate n ''..'' @ ys \<and>
           (\<not> a \<longrightarrow> n = 0) \<and>
           (\<forall>y\<in>set ys. y \<noteq> [] \<and> y \<noteq> ''.'' \<and> y \<noteq> ''..'') \<and>
           set ys \<subseteq> set ys0 \<union> set (seg # xs)"
      by auto
    then show ?thesis by blast
  next
    case up
    show ?thesis
    proof (cases ys0 rule: rev_cases)
      case (snoc ys1 y)
      with Cons.prems have y: "y \<noteq> ''..''"
        and ys1: "\<forall>y\<in>set ys1. y \<noteq> [] \<and> y \<noteq> ''.'' \<and> y \<noteq> ''..''"
        by simp_all
      from up snoc y have step: "normalizeSegments a ?acc (seg # xs) =
          normalizeSegments a (rev ys1 @ replicate n0 ''..'') xs"
        by simp
      from Cons.IH [OF ys1 Cons.prems(2)] obtain n ys where
        "normalizeSegments a (rev ys1 @ replicate n0 ''..'') xs = replicate n ''..'' @ ys"
        "\<not> a \<longrightarrow> n = 0" "\<forall>y\<in>set ys. y \<noteq> [] \<and> y \<noteq> ''.'' \<and> y \<noteq> ''..''"
        "set ys \<subseteq> set ys1 \<union> set xs" by blast
      with step snoc have "normalizeSegments a ?acc (seg # xs) = replicate n ''..'' @ ys \<and>
           (\<not> a \<longrightarrow> n = 0) \<and>
           (\<forall>y\<in>set ys. y \<noteq> [] \<and> y \<noteq> ''.'' \<and> y \<noteq> ''..'') \<and>
           set ys \<subseteq> set ys0 \<union> set (seg # xs)"
        by auto
      then show ?thesis by blast
    next
      case Nil
      let ?n1 = "if a then Suc n0 else 0"
      have n1: "\<not> a \<longrightarrow> ?n1 = 0" by simp
      have e: "\<forall>y\<in>set ([]::string list). y \<noteq> [] \<and> y \<noteq> ''.'' \<and> y \<noteq> ''..''" by simp
      from Cons.IH [OF e n1] obtain n ys where r:
        "normalizeSegments a (rev [] @ replicate ?n1 ''..'') xs = replicate n ''..'' @ ys"
        "\<not> a \<longrightarrow> n = 0" "\<forall>y\<in>set ys. y \<noteq> [] \<and> y \<noteq> ''.'' \<and> y \<noteq> ''..''"
        "set ys \<subseteq> set [] \<union> set xs" by blast
      have step: "normalizeSegments a ?acc (seg # xs) =
            normalizeSegments a (rev [] @ replicate ?n1 ''..'') xs"
        using up Nil Cons.prems(2) by (cases n0) auto
      with r have "normalizeSegments a ?acc (seg # xs) = replicate n ''..'' @ ys \<and>
           (\<not> a \<longrightarrow> n = 0) \<and>
           (\<forall>y\<in>set ys. y \<noteq> [] \<and> y \<noteq> ''.'' \<and> y \<noteq> ''..'') \<and>
           set ys \<subseteq> set ys0 \<union> set (seg # xs)"
        by auto
      then show ?thesis by blast
    qed
  qed
qed

lemma normalizeSegments_stable:
  assumes "\<forall>y\<in>set ys. y \<noteq> [] \<and> y \<noteq> ''.'' \<and> y \<noteq> ''..''" and "\<not> a \<longrightarrow> n = 0"
  shows "normalizeSegments a [] (replicate n ''..'' @ ys) = replicate n ''..'' @ ys"
proof (cases a)
  case True
  have "normalizeSegments True (replicate 0 ''..'') (replicate n ''..'' @ ys) =
        normalizeSegments True (replicate (0 + n) ''..'') ys"
    by (rule normalizeSegments_dots)
  with True assms(1) show ?thesis by (simp add: normalizeSegments_plain)
next
  case False
  with assms show ?thesis by (simp add: normalizeSegments_plain)
qed

lemma str_join_not_Nil: "segs \<noteq> [] \<Longrightarrow> hd segs \<noteq> [] \<Longrightarrow> str_join sep segs \<noteq> []"
  by (induction sep segs rule: str_join.induct) auto

lemma hd_str_join: "segs \<noteq> [] \<Longrightarrow> hd segs \<noteq> [] \<Longrightarrow> hd (str_join sep segs) = hd (hd segs)"
  by (induction sep segs rule: str_join.induct) auto

lemma str_join_not_Nil_last: "segs \<noteq> [] \<Longrightarrow> last segs \<noteq> [] \<Longrightarrow> str_join sep segs \<noteq> []"
  by (induction sep segs rule: str_join.induct) auto

lemma last_str_join:
  "segs \<noteq> [] \<Longrightarrow> last segs \<noteq> [] \<Longrightarrow> last (str_join sep segs) = last (last segs)"
proof (induction sep segs rule: str_join.induct)
  case (3 sep x y ys)
  then have "str_join sep (y # ys) \<noteq> []" by (simp add: str_join_not_Nil_last)
  with 3 show ?case by simp
qed simp_all

lemma path_normalize_cong:
  assumes "x \<noteq> []" and "y \<noteq> []"
    and "(hd x = CHR ''/'') = (hd y = CHR ''/'')"
    and "(last x = CHR ''/'') = (last y = CHR ''/'')"
    and "normalizeSegments (hd x \<noteq> CHR ''/'') [] (str_split CHR ''/'' x) =
         normalizeSegments (hd y \<noteq> CHR ''/'') [] (str_split CHR ''/'' y)"
  shows "path_normalize x = path_normalize y"
  using assms by (simp add: path_normalize_def)

lemma path_normalize_fixed:
  assumes "x \<noteq> []" and "last x \<noteq> CHR ''/''"
    and "normalizeSegments (hd x \<noteq> CHR ''/'') [] (str_split CHR ''/'' x) = S"
    and "str_join ''/'' S \<noteq> []"
    and "x = (if hd x = CHR ''/'' then ''/'' @ str_join ''/'' S else str_join ''/'' S)"
  shows "path_normalize x = x"
proof -
  have "path_normalize x =
      (if hd x = CHR ''/'' then ''/'' @ str_join ''/'' S else str_join ''/'' S)"
    using assms(1-4) by (simp add: path_normalize_def)
  with assms(5) show ?thesis by simp
qed

lemma prompts_dir_segments:
  assumes "c \<noteq> []"
  shows "\<exists>S. normalizeSegments (hd c \<noteq> CHR ''/'') [] (str_split CHR ''/'' (c @ ''/prompts'')) = S \<and>
             S \<noteq> [] \<and> last S = ''prompts'' \<and>
             (\<forall>s\<in>set S. s \<noteq> [] \<and> CHR ''/'' \<notin> set s) \<and>
             normalizeSegments (hd c \<noteq> CHR ''/'') [] S = S"
proof -
  let ?a = "hd c \<noteq> CHR ''/''"
  have e: "\<forall>y\<in>set ([]::string list). y \<noteq> [] \<and> y \<noteq> ''.'' \<and> y \<noteq> ''..''" by simp
  have z: "\<not> ?a \<longrightarrow> (0::nat) = 0" by simp
  from normalizeSegments_shape [OF e z, of "str_split CHR ''/'' c"]
  obtain n ys where sh:
    "normalizeSegments ?a [] (str_split CHR ''/'' c) = replicate n ''..'' @ ys"
    "\<not> ?a \<longrightarrow> n = 0" "\<forall>y\<in>set ys. y \<noteq> [] \<and> y \<noteq> ''.'' \<and> y \<noteq> ''..''"
    "set ys \<subseteq> set (str_split CHR ''/'' c)" by auto
  have split: "str_split CHR ''/'' (c @ ''/prompts'') = str_split CHR ''/'' c @ [''prompts'']"
    using str_split_append [of "CHR ''/''" c "''prompts''"] by (simp add: str_split_no_sep)
  let ?S = "replicate n ''..'' @ (ys @ [''prompts''])"
  have "normalizeSegments ?a [] (str_split CHR ''/'' (c @ ''/prompts'')) =
        normalizeSegments ?a (rev (replicate n ''..'' @ ys)) [''prompts'']"
    unfolding split by (simp only: normalizeSegments_append sh(1))
  also have "\<dots> = ?S"
    by (simp add: normalizeSegments_plain)
  finally have S: "normalizeSegments ?a [] (str_split CHR ''/'' (c @ ''/prompts'')) = ?S" .
  have plain: "\<forall>y\<in>set (ys @ [''prompts'']). y \<noteq> [] \<and> y \<noteq> ''.'' \<and> y \<noteq> ''..''"
    using sh(3) by simp
  have stable: "normalizeSegments ?a [] ?S = ?S"
    by (rule normalizeSegments_stable [OF plain sh(2)])
  have nosep: "\<forall>s\<in>set ?S. s \<noteq> [] \<and> CHR ''/'' \<notin> set s"
    using sh(3,4) str_split_segments [of _ "CHR ''/''" c] by auto
  have "?S \<noteq> [] \<and> last ?S = ''prompts''" by simp
  with S stable nosep show ?thesis by blast
qed

lemma path_join_nested:
  "path_join [path_join [c, ''prompts''], f] = path_join [c, ''prompts'', f]"
proof (cases "c = []")
  case True
  have "path_normalize ''prompts'' = ''prompts''" by code_simp
  with True show ?thesis by (simp add: path_join_def)
next
  case False
  let ?a = "hd c \<noteq> CHR ''/''"
  let ?P = "c @ ''/prompts''"
  from prompts_dir_segments [OF False] obtain S where S:
    "normalizeSegments ?a [] (str_split CHR ''/'' ?P) = S" "S \<noteq> []" "last S = ''prompts''"
    "\<forall>s\<in>set S. s \<noteq> [] \<and> CHR ''/'' \<notin> set s" "normalizeSegments ?a [] S = S"
    by blast
  let ?p = "str_join ''/'' S"
  let ?X = "path_normalize ?P"
  have p_ne: "?p \<noteq> []" using S(2,3) by (simp add: str_join_not_Nil_last)
  have lastp: "last ?p = CHR ''s''" using S(2,3) by (simp add: last_str_join)
  have hdS: "hd S \<in> set S" using S(2) by simp
  with S(4) have hdS': "hd S \<noteq> []" "CHR ''/'' \<notin> set (hd S)" by blast+
  then have "hd (hd S) \<noteq> CHR ''/''" using hd_in_set [of "hd S"] by metis
  moreover have "hd ?p = hd (hd S)" using S(2) hdS'(1) by (rule hd_str_join)
  ultimately have hdp: "hd ?p \<noteq> CHR ''/''" by simp
  have X: "?X = (if ?a then ?p else ''/'' @ ?p)"
    using False S(1) p_ne by (simp add: path_normalize_def)
  have X_ne: "?X \<noteq> []" using X p_ne by simp
  have hdX: "(hd ?X = CHR ''/'') = (hd c = CHR ''/'')" using X hdp by simp
  have lastX: "last ?X = CHR ''s''" using X lastp p_ne by simp
  have splitp: "str_split CHR ''/'' ?p = S"
    using str_split_join [of S "CHR ''/''"] S(2,4) by simp
  have splitX: "str_split CHR ''/'' ?X = (if ?a then S else [] # S)"
    using X splitp by simp
  have join1: "path_join [c, ''prompts''] = ?X"
    using False by (simp add: path_join_def)
  show ?thesis
  proof (cases "f = []")
    case True
    have "path_normalize ?X = ?X"
    proof (rule path_normalize_fixed [where S = S])
      show "?X \<noteq> []" by (rule X_ne)
      show "last ?X \<noteq> CHR ''/''" using lastX by simp
      show "normalizeSegments (hd ?X \<noteq> CHR ''/'') [] (str_split CHR ''/'' ?X) = S"
        using hdX splitX S(5) by auto
      show "str_join ''/'' S \<noteq> []" by (rule p_ne)
      show "?X = (if hd ?X = CHR ''/'' then ''/'' @ str_join ''/'' S else str_join ''/'' S)"
        using X hdX by auto
    qed
    with True False X_ne join1 show ?thesis by (simp add: path_join_def)
  next
    case f: False
    let ?x = "?X @ ''/'' @ f" and ?y = "c @ ''/'' @ ''prompts'' @ ''/'' @ f"
    have segx: "normalizeSegments (hd ?x \<noteq> CHR ''/'') [] (str_split CHR ''/'' ?x) =
                normalizeSegments ?a (rev S) (str_split CHR ''/'' f)"
    proof -
      have "str_split CHR ''/'' ?x = str_split CHR ''/'' ?X @ str_split CHR ''/'' f"
        using str_split_append [of "CHR ''/''" ?X f] by simp
      moreover have "normalizeSegments ?a [] (str_split CHR ''/'' ?X @ str_split CHR ''/'' f) =
          normalizeSegments ?a [] (S @ str_split CHR ''/'' f)"
        using splitX by auto
      moreover have "(hd ?x \<noteq> CHR ''/'') = ?a" using hdX X_ne by simp
      ultimately show ?thesis
        using S(5) by (simp add: normalizeSegments_append [of _ _ S])
    qed
    have segy: "normalizeSegments (hd ?y \<noteq> CHR ''/'') [] (str_split CHR ''/'' ?y) =
                normalizeSegments ?a (rev S) (str_split CHR ''/'' f)"
    proof -
      have "?y = ?P @ CHR ''/'' # f" by simp
      then have "str_split CHR ''/'' ?y = str_split CHR ''/'' ?P @ str_split CHR ''/'' f"
        using str_split_append [of "CHR ''/''" ?P f] by simp
      moreover have "(hd ?y \<noteq> CHR ''/'') = ?a" using False by simp
      ultimately show ?thesis
        using S(1) by (simp add: normalizeSegments_append [of _ _ "str_split CHR ''/'' ?P"])
    qed
    have "path_normalize ?x = path_normalize ?y"
    proof (rule path_normalize_cong)
      show "?x \<noteq> []" "?y \<noteq> []" by simp_all
      show "(hd ?x = CHR ''/'') = (hd ?y = CHR ''/'')" using hdX X_ne False by simp
      show "(last ?x = CHR ''/'') = (last ?y = CHR ''/'')" using f by simp
      show "normalizeSegments (hd ?x \<noteq> CHR ''/'') [] (str_split CHR ''/'' ?x) =
            normalizeSegments (hd ?y \<noteq> CHR ''/'') [] (str_split CHR ''/'' ?y)"
        using segx segy by simp
    qed
    with f False X_ne join1 show ?thesis by (simp add: path_join_def)
  qed
qed

lemma str_replace_prefix: "str_replace (pat @ rest) pat [] = rest"
proof (cases "pat @ rest")
  case Nil
  then show ?thesis by simp
next
  case (Cons c cs)
  have "prefix pat (pat @ rest)" by simp
  with Cons have "str_replace (pat @ rest) pat [] = drop (length pat) (pat @ rest)"
    by simp
  then show ?thesis by simp
qed

subsection \<open>Claim C10\<close>

text \<open>
  C10. For every string \<open>documentRef\<close>, \<open>loadPromptContent\<close> returns what reading
  the file at \<open>path.join(cwd, 'prompts', documentRef)\<close> gives (its text, or the
  wrapped I/O error): the reference is not checked, and a reference with \<open>..\<close>
  segments that leads out of the documents directory is read like any other. The
  \<open>resources/read\<close> handler passes whatever follows \<open>prompt://\<close> in the URI as the
  reference, so the same file is read through it.
\<close>

theorem loadPromptContent_unchecked_path:
  "loadPromptContent e documentRef =
     (case readFile e (path_join [cwd e, ''prompts'', documentRef]) of
        Inr c \<Rightarrow> Inr c
      | Inl err \<Rightarrow>
          Inl (Error (''Failed to load prompt file '' @ documentRef @ '': '' @ errorToString err))) \<and>
   readResource e (''prompt://'' @ documentRef) =
     (case readFile e (path_join [cwd e, ''prompts'', documentRef]) of
        Inr c \<Rightarrow>
          Inr [\<lparr> uri = ''prompt://'' @ documentRef, mimeType = ''text/markdown'',
                 resourceText = c \<rparr>]
      | Inl err \<Rightarrow>
          Inl (Error (''Failed to read resource prompt://'' @ documentRef @
                      '': Error: Failed to load prompt file '' @ documentRef @ '': '' @
                      errorToString err)))"
proof -
  have load: "loadPromptContent e documentRef =
     (case readFile e (path_join [cwd e, ''prompts'', documentRef]) of
        Inr c \<Rightarrow> Inr c
      | Inl err \<Rightarrow>
          Inl (Error (''Failed to load prompt file '' @ documentRef @ '': '' @ errorToString err)))"
    by (simp add: loadPromptContent_def path_join_nested)
  have "startsWith (''prompt://'' @ documentRef) ''prompt://''"
    by (simp add: startsWith_def)
  moreover have "str_replace (''prompt://'' @ documentRef) ''prompt://'' '''' = documentRef"
    by (rule str_replace_prefix)
  ultimately have "readResource e (''prompt://'' @ documentRef) =
      (case loadPromptContent e documentRef of
         Inr c \<Rightarrow>
           Inr [\<lparr> uri = ''prompt://'' @ documentRef, mimeType = ''text/markdown'',
                  resourceText = c \<rparr>]
       | Inl err \<Rightarrow>
           Inl (Error (''Failed to read resource '' @ (''prompt://'' @ documentRef) @ '': '' @
                       errorToString err)))"
    by (simp only: readResource_def Let_def not_True_eq_False if_False)
  with load show ?thesis
    by (simp split: sum.splits)
qed

theorem loadPromptContent_unchecked_path_witness:
  "path_join [cwd exampleEnv, ''prompts'', ''../package.json''] = ''/app/package.json'' \<and>
   \<not> prefix (path_join [cwd exampleEnv, ''prompts'']) ''/app/package.json'' \<and>
   loadPromptContent exampleEnv ''../package.json'' = Inr ''{ name: openfga-modeling-mcp }'' \<and>
   readResource exampleEnv ''prompt://../package.json'' =
     Inr [\<lparr> uri = ''prompt://../package.json'', mimeType = ''text/markdown'',
            resourceText = ''{ name: openfga-modeling-mcp }'' \<rparr>]"
proof -
  have p: "path_join [cwd exampleEnv, ''prompts'', ''../package.json''] = ''/app/package.json''"
    by code_simp
  have q: "\<not> prefix (path_join [cwd exampleEnv, ''prompts'']) ''/app/package.json''"
    by code_simp
  have r: "readFile exampleEnv ''/app/package.json'' = Inr ''{ name: openfga-modeling-mcp }''"
    by code_simp
  from loadPromptContent_unchecked_path [of exampleEnv "''../package.json''"] p q r
  show ?thesis by simp
qed

end
